theory Spec2Isabelle
  imports Main "HOL-Library.Sublist"
begin

section \<open>JavaScript values used by the checkout stepper\<close>

text \<open>
  The values that flow through the step-number positions of the program: an integer-valued
  number, \<open>NaN\<close> (what \<open>parseInt\<close> returns on a malformed fragment) and \<open>null\<close> (the
  step number of a step without a number). \<open>Num n\<close> stands for the JavaScript number
  with the integer value \<open>n\<close>. Up to \<open>Number.MAX_SAFE_INTEGER\<close>, which is \<open>2^53 - 1\<close>,
  every integer is a JavaScript number, and it is parsed and printed digit by digit;
  beyond it numbers are floating point, and what \<open>parseInt\<close> and the template literal
  make of them is not determined here.
\<close>

datatype jsval = Num int | NaN | Null

definition MAX_SAFE_INTEGER :: int where
  "MAX_SAFE_INTEGER = 9007199254740991"

text \<open>
  The floating-point part of \<open>parseInt\<close>: the number for a digit string whose value is
  beyond the safe integers (the nearest double, or \<open>Infinity\<close>), given the signed value
  of the digits. The model leaves it open.
\<close>

definition float_parseInt :: "int \<Rightarrow> jsval" where
  "float_parseInt = undefined"

text \<open>
  The floating-point part of ToString: the printed form of a number beyond the safe
  integers (the shortest digits that read back as the same double, in exponent notation
  from \<open>10^21\<close> on). The model leaves it open.
\<close>

definition float_toString :: "int \<Rightarrow> string" where
  "float_toString = undefined"

datatype error = Error string | TypeError string | ReferenceError string

text \<open>ToNumber: \<open>null\<close> converts to 0; \<open>None\<close> stands for NaN.\<close>

fun js_toNumber :: "jsval \<Rightarrow> int option" where
  "js_toNumber (Num n) = Some n"
| "js_toNumber NaN = None"
| "js_toNumber Null = Some 0"

text \<open>ToBoolean: 0, NaN and null are falsy.\<close>

fun js_truthy :: "jsval \<Rightarrow> bool" where
  "js_truthy (Num n) = (n \<noteq> 0)"
| "js_truthy NaN = False"
| "js_truthy Null = False"

text \<open>The relational operators: any comparison with NaN is false.\<close>

definition js_lt :: "jsval \<Rightarrow> jsval \<Rightarrow> bool" where
  "js_lt a b = (case (js_toNumber a, js_toNumber b) of
                  (Some x, Some y) \<Rightarrow> x < y
                | _ \<Rightarrow> False)"

definition js_gt :: "jsval \<Rightarrow> jsval \<Rightarrow> bool" where
  "js_gt a b = js_lt b a"

text \<open>Strict equality \<open>===\<close>: no conversion, and NaN equals nothing.\<close>

fun js_strict_eq :: "jsval \<Rightarrow> jsval \<Rightarrow> bool" where
  "js_strict_eq (Num a) (Num b) = (a = b)"
| "js_strict_eq Null Null = True"
| "js_strict_eq _ _ = False"

section \<open>Step descriptors and annotated steps\<close>

text \<open>
  What \<open>isCompleteCallback\<close> can hand back to \<open>onClick\<close>: \<open>undefined\<close> or \<open>null\<close>
  (replaced by \<open>true\<close> through \<open>??\<close>), a boolean, some other value without a \<open>then\<close>
  property, or a thenable.
\<close>

datatype complete_result = Undefined | Nullish | Bool bool | Other | Promise

type_synonym payment_method = string

text \<open>
  The fields of a step descriptor that the stepper reads; \<open>step_id\<close> is the field \<open>id\<close>.
  The annotated step is the descriptor spread into a new object with \<open>stepNumber\<close> and
  \<open>stepIndex\<close> added.
\<close>

record step =
  step_id :: string
  hasStepNumber :: bool
  isCompleteCallback :: "(payment_method \<Rightarrow> complete_result) option"

record annotated_step = step +
  stepNumber :: jsval
  stepIndex :: nat

text \<open>
  \<open>getAnnotatedSteps\<close>: \<open>steps.map\<close> with the counter \<open>numberedStepNumber\<close> that the
  callback updates; the recursion carries the index and the counter.
\<close>

fun annotate_from :: "nat \<Rightarrow> int \<Rightarrow> step list \<Rightarrow> annotated_step list" where
  "annotate_from index numberedStepNumber [] = []"
| "annotate_from index numberedStepNumber (step # rest) =
     (let numberedStepNumber' =
            (if hasStepNumber step then numberedStepNumber + 1 else numberedStepNumber)
      in step.extend step
           (annotated_step.fields
              (if hasStepNumber step then Num numberedStepNumber' else Null) index)
         # annotate_from (Suc index) numberedStepNumber' rest)"

definition getAnnotatedSteps :: "step list \<Rightarrow> error + annotated_step list" where
  "getAnnotatedSteps steps =
     (let annotatedSteps = annotate_from 0 0 steps
      in if length annotatedSteps < 1 then Inl (Error ''No steps found'')
         else Inr annotatedSteps)"

text \<open>
  \<open>areAllPreviousStepsComplete\<close>: a \<open>reduce\<close> over the annotated steps with the seed
  \<open>false\<close>. The completion map holds the booleans that \<open>setStepComplete\<close> stored; an
  absent key reads as \<open>false\<close> through \<open>??\<close>.
\<close>

definition areAllPreviousStepsComplete ::
  "annotated_step list \<Rightarrow> jsval \<Rightarrow> (string \<rightharpoonup> bool) \<Rightarrow> bool" where
  "areAllPreviousStepsComplete steps n stepCompleteStatus =
     foldl (\<lambda>allComplete step.
              if js_truthy (stepNumber step) \<and> js_lt (stepNumber step) n
              then (if allComplete = False then False
                    else (case stepCompleteStatus (step_id step) of
                            None \<Rightarrow> False | Some b \<Rightarrow> b))
              else allComplete)
           False steps"

section \<open>Strings\<close>

text \<open>
  Strings are ASCII here: the fragment of a serialised URL is percent-encoded, and the
  fragments the program writes consist of \<open>#step\<close> and decimal digits.
\<close>

definition js_startsWith :: "string \<Rightarrow> string \<Rightarrow> bool" where
  "js_startsWith s p = prefix p s"

text \<open>
  \<open>s.split(sep)\<close> for a non-empty separator: the pieces between the occurrences of
  \<open>sep\<close>, found from left to right without overlap. \<open>piece\<close> is the piece being read.
\<close>

fun split_pieces :: "string \<Rightarrow> string \<Rightarrow> string \<Rightarrow> string list" where
  "split_pieces sep piece [] = [piece]"
| "split_pieces sep piece (c # cs) =
     (if prefix sep (c # cs) then piece # split_pieces sep [] (drop (length sep - 1) cs)
      else split_pieces sep (piece @ [c]) cs)"

definition js_split :: "string \<Rightarrow> string \<Rightarrow> string list" where
  "js_split s sep = split_pieces sep [] s"

text \<open>
  \<open>s.replace(pat, rep)\<close> with a string pattern: only the first occurrence is replaced.
  The replacement strings of the program hold no \<open>$\<close>, so no replacement pattern applies.
\<close>

fun js_replace :: "string \<Rightarrow> string \<Rightarrow> string \<Rightarrow> string" where
  "js_replace [] pat rep = (if pat = [] then rep else [])"
| "js_replace (c # cs) pat rep =
     (if prefix pat (c # cs) then rep @ drop (length pat) (c # cs)
      else c # js_replace cs pat rep)"

definition is_whitespace :: "char \<Rightarrow> bool" where
  "is_whitespace c = (of_char c \<in> {9, 10, 11, 12, 13, 32 :: nat})"

definition is_digit :: "char \<Rightarrow> bool" where
  "is_digit c = (48 \<le> (of_char c :: nat) \<and> (of_char c :: nat) \<le> 57)"

definition digit_value :: "char \<Rightarrow> nat" where
  "digit_value c = of_char c - 48"

definition digits_value :: "string \<Rightarrow> nat" where
  "digits_value ds = foldl (\<lambda>a c. 10 * a + digit_value c) 0 ds"

text \<open>
  \<open>parseInt(s, 10)\<close>: leading white space is skipped, one sign is read, then the longest
  run of decimal digits; no digit at all gives NaN. With the radix given, a \<open>0x\<close> prefix
  is not special. The digits give the number exactly as long as their value is a safe
  integer.
\<close>

definition parseInt10 :: "string \<Rightarrow> jsval" where
  "parseInt10 s =
     (let s1 = dropWhile is_whitespace s;
          sign = (case s1 of c # r \<Rightarrow> if c = CHR ''-'' then - 1 else 1 | [] \<Rightarrow> (1::int));
          s2 = (case s1 of c # r \<Rightarrow> if c = CHR ''-'' \<or> c = CHR ''+'' then r else s1 | [] \<Rightarrow> []);
          ds = takeWhile is_digit s2
      in if ds = [] then NaN
         else if int (digits_value ds) \<le> MAX_SAFE_INTEGER
              then Num (sign * int (digits_value ds))
              else float_parseInt (sign * int (digits_value ds)))"

definition digit_char :: "nat \<Rightarrow> char" where
  "digit_char d = char_of (48 + d)"

fun digits_of :: "nat \<Rightarrow> string" where
  "digits_of n = (if n < 10 then [digit_char n]
                  else digits_of (n div 10) @ [digit_char (n mod 10)])"

declare digits_of.simps [simp del]

text \<open>
  ToString, as the template literal applies it: a safe integer prints as its decimal
  digits, with a minus sign when negative.
\<close>

fun js_toString :: "jsval \<Rightarrow> string" where
  "js_toString (Num n) =
     (if \<bar>n\<bar> \<le> MAX_SAFE_INTEGER
      then (if n < 0 then CHR ''-'' # digits_of (nat (- n)) else digits_of (nat n))
      else float_toString n)"
| "js_toString NaN = ''NaN''"
| "js_toString Null = ''null''"

section \<open>The browser window\<close>

text \<open>
  The part of \<open>window\<close> the program touches. \<open>location_href\<close> is \<open>None\<close> when
  \<open>window.location\<close> is undefined (the case \<open>window.location?.hash\<close> allows for);
  \<open>history_pushState\<close> tells whether \<open>window.history?.pushState\<close> is there;
  \<open>history_entries\<close> is the session history up to the current entry, oldest first.
\<close>

record window =
  location_href :: "string option"
  history_pushState :: bool
  history_entries :: "string list"

text \<open>
  \<open>location.hash\<close>: the part of the URL from the first \<open>#\<close> on, and the empty string
  when there is no fragment or the fragment is empty.
\<close>

definition location_hash :: "string \<Rightarrow> string" where
  "location_hash href =
     (let fragment = dropWhile (\<lambda>c. c \<noteq> CHR ''#'') href
      in if length fragment \<le> 1 then [] else fragment)"

text \<open>
  \<open>history.pushState(null, null, url)\<close>: the document's URL becomes \<open>url\<close> and a new
  entry is added to the session history; nothing is loaded.
\<close>

definition pushState :: "string \<Rightarrow> window \<Rightarrow> window" where
  "pushState url w = w\<lparr>location_href := Some url, history_entries := history_entries w @ [url]\<rparr>"

definition getStepNumberFromUrl :: "window \<Rightarrow> jsval" where
  "getStepNumberFromUrl w =
     (case location_href w of
        None \<Rightarrow> Num 1
      | Some href \<Rightarrow>
          (let hashValue = location_hash href
           in if js_startsWith hashValue ''#step''
              then (let parts = js_split hashValue ''#step'';
                        stepNumber = (if length parts > 1 then parts ! 1 else ''1'')
                    in parseInt10 stepNumber)
              else Num 1))"

definition newHash_of :: "jsval \<Rightarrow> string" where
  "newHash_of n =
     (if js_gt n (Num 1) then ''#step'' @ js_toString n else [])"

definition saveStepNumberToUrl :: "jsval \<Rightarrow> window \<Rightarrow> error + window" where
  "saveStepNumberToUrl n w =
     (if \<not> history_pushState w then Inr w
      else (let newHash = newHash_of n
            in case location_href w of
                 None \<Rightarrow> Inl (TypeError ''window.location is undefined'')
               | Some href \<Rightarrow>
                   if location_hash href = newHash then Inr w
                   else (let newUrl = (if location_hash href \<noteq> []
                                       then js_replace href (location_hash href) newHash
                                       else href @ newHash)
                         in Inr (pushState newUrl w))))"

section \<open>The step store\<close>

record 'p action =
  action_type :: string
  payload :: 'p

text \<open>
  The store's state \<open>{ stepNumber }\<close>; the selector \<open>getStepNumber\<close> reads its one field.
\<close>

datatype store_state = State (getStepNumber: jsval)

definition initial_state :: store_state where
  "initial_state = State (Num 1)"

definition reducer :: "store_state \<Rightarrow> jsval action \<Rightarrow> store_state" where
  "reducer state a =
     (if action_type a = ''STEP_NUMBER_SET'' then State (payload a) else state)"

datatype form_status = Loading | Ready | Validating

text \<open>
  What the program does to the world outside it, in the order it happens: a call of
  \<open>onEvent\<close> with an event, a call of \<open>history.pushState\<close> with a URL, an action handed
  to the reducer.
\<close>

datatype effect = OnEvent "jsval action" | PushState string | Commit "jsval action"

text \<open>
  The closure that \<open>isCompleteResult.then( evaluateContinue )\<close> registers: the \<open>id\<close> of
  the step container and the \<open>nextStep\<close> that \<open>goToNextStep\<close> captured at render time.
\<close>

record continuation =
  cont_id :: string
  cont_nextStep :: "annotated_step option"

record checkout =
  store :: store_state
  win :: window
  formStatus :: form_status
  stepCompleteStatus :: "string \<rightharpoonup> bool"
  pending :: "continuation list"
  effects :: "effect list"

text \<open>A raised error comes with the world as it was when it was raised.\<close>

type_synonym result = "(error \<times> checkout) + checkout"

text \<open>The generator \<open>changeStep\<close>: the actions it yields, and the action it returns.\<close>

definition changeStep :: "jsval \<Rightarrow> jsval action list \<times> jsval action" where
  "changeStep p =
     ([\<lparr>action_type = ''STEP_NUMBER_CHANGE_EVENT'', payload = p\<rparr>],
      \<lparr>action_type = ''STEP_NUMBER_SET'', payload = p\<rparr>)"

text \<open>
  Modelled from the spec: \<open>onEvent\<close>, the event collaborator that \<open>useEvents\<close> of
  \<open>./checkout-provider\<close> hands out; it receives the event.
\<close>

definition onEvent :: "jsval action \<Rightarrow> checkout \<Rightarrow> checkout" where
  "onEvent a c = c\<lparr>effects := effects c @ [OnEvent a]\<rparr>"

text \<open>
  The URLs that a call pushed: the entries that the session history of the window after
  the call has beyond those of the window before it.
\<close>

definition pushed_urls :: "window \<Rightarrow> window \<Rightarrow> string list" where
  "pushed_urls w w' = drop (length (history_entries w)) (history_entries w')"

text \<open>
  The control \<open>STEP_NUMBER_CHANGE_EVENT\<close>: \<open>onEvent\<close>, then \<open>saveStepNumberToUrl\<close>, whose
  calls of \<open>history.pushState\<close> go on record after the event.
\<close>

definition STEP_NUMBER_CHANGE_EVENT :: "jsval action \<Rightarrow> checkout \<Rightarrow> result" where
  "STEP_NUMBER_CHANGE_EVENT a c =
     (let c1 = onEvent a c
      in case saveStepNumberToUrl (payload a) (win c1) of
           Inl e \<Rightarrow> Inl (e, c1)
         | Inr w \<Rightarrow>
             Inr (c1\<lparr>win := w,
                     effects := effects c1 @ map PushState (pushed_urls (win c1) w)\<rparr>))"

definition controls :: "string \<Rightarrow> (jsval action \<Rightarrow> checkout \<Rightarrow> result) option" where
  "controls t = (if t = ''STEP_NUMBER_CHANGE_EVENT'' then Some STEP_NUMBER_CHANGE_EVENT else None)"

text \<open>
  Modelled from the spec: the commit phase of the store collaborator of \<open>../lib/registry\<close>
  (\<open>useRegisterPrimaryStore\<close>), a synchronous reducer store: the action goes through the
  reducer and the new state is there for readers at once.
\<close>

definition commit :: "jsval action \<Rightarrow> checkout \<Rightarrow> checkout" where
  "commit a c = c\<lparr>store := reducer (store c) a, effects := effects c @ [Commit a]\<rparr>"

text \<open>
  Modelled from the spec: the side-effect phase of a multi-phase action of the same store
  collaborator. Each yielded action runs the control registered for its type, in order,
  and a raised error ends the dispatch; a yielded action without a control goes to the
  reducer.
\<close>

fun run_yielded :: "jsval action list \<Rightarrow> checkout \<Rightarrow> result" where
  "run_yielded [] c = Inr c"
| "run_yielded (a # rest) c =
     (case controls (action_type a) of
        Some control \<Rightarrow>
          (case control a c of Inl e \<Rightarrow> Inl e | Inr c' \<Rightarrow> run_yielded rest c')
      | None \<Rightarrow> run_yielded rest (commit a c))"

text \<open>
  Modelled from the spec: dispatch of a generator action through \<open>usePrimaryDispatch\<close> of
  \<open>../lib/registry\<close>: the yielded actions first, then the commit of the returned action,
  all before dispatch returns.
\<close>

definition dispatch :: "jsval action list \<times> jsval action \<Rightarrow> checkout \<Rightarrow> result" where
  "dispatch routine c =
     (case run_yielded (fst routine) c of
        Inl e \<Rightarrow> Inl e
      | Inr c' \<Rightarrow> Inr (commit (snd routine) c'))"

section \<open>The checkout orchestrator\<close>

text \<open>\<open>annotatedSteps.find( step => step.stepNumber === stepNumber )\<close>, or the throw.\<close>

definition find_activeStep :: "annotated_step list \<Rightarrow> jsval \<Rightarrow> error + annotated_step" where
  "find_activeStep annotatedSteps n =
     (case find (\<lambda>step. js_strict_eq (stepNumber step) n) annotatedSteps of
        None \<Rightarrow> Inl (Error ''The active step was lost'')
      | Some activeStep \<Rightarrow> Inr activeStep)"

text \<open>\<open>find\<close> hands the callback the element and its array index.\<close>

definition nextStep :: "annotated_step list \<Rightarrow> annotated_step \<Rightarrow> annotated_step option" where
  "nextStep annotatedSteps activeStep =
     map_option snd
       (find (\<lambda>(index, step). index > stepIndex activeStep \<and> hasStepNumber step)
          (enumerate 0 annotatedSteps))"

definition isThereAnotherNumberedStep :: "annotated_step option \<Rightarrow> bool" where
  "isThereAnotherNumberedStep ns = (case ns of None \<Rightarrow> False | Some s \<Rightarrow> hasStepNumber s)"

text \<open>The props that \<open>Checkout\<close> hands to the \<open>CheckoutStepContainer\<close> of a step.\<close>

record container_props =
  prop_id :: string
  isComplete :: bool
  prop_stepNumber :: jsval
  shouldShowNextButton :: bool

definition CheckoutStepContainer_props ::
  "(string \<rightharpoonup> bool) \<Rightarrow> annotated_step \<Rightarrow> annotated_step option \<Rightarrow> annotated_step
   \<Rightarrow> container_props" where
  "CheckoutStepContainer_props completeStatus activeStep ns step =
     \<lparr>prop_id = step_id step,
      isComplete = (case completeStatus (step_id step) of None \<Rightarrow> False | Some b \<Rightarrow> b),
      prop_stepNumber = (if js_truthy (stepNumber step) then stepNumber step else Null),
      shouldShowNextButton =
        (hasStepNumber step \<and> step_id step = step_id activeStep
         \<and> isThereAnotherNumberedStep ns)\<rparr>"

definition shouldShowStepCompleteIcon :: "annotated_step \<Rightarrow> container_props \<Rightarrow> bool" where
  "shouldShowStepCompleteIcon activeStep props =
     (\<not> js_truthy (prop_stepNumber props)
      \<or> js_gt (stepNumber activeStep) (prop_stepNumber props))"








section \<open>The coupon form\<close>

datatype coupon_payload = CouponCode string | ErrorType string

datatype coupon_effect =
    PreventDefault
  | SetIsCouponApplied bool
  | OnEventCoupon "coupon_payload action"
  | SubmitCoupon string
  | CouponAdded
  | SetHasCouponError bool

text \<open>The character class \<open>[a-zA-Z0-9_-]\<close>.\<close>

definition is_coupon_char :: "char \<Rightarrow> bool" where
  "is_coupon_char c =
     (let k = (of_char c :: nat)
      in (97 \<le> k \<and> k \<le> 122) \<or> (65 \<le> k \<and> k \<le> 90) \<or> (48 \<le> k \<and> k \<le> 57)
         \<or> c = CHR ''_'' \<or> c = CHR ''-'')"

text \<open>
  \<open>coupon.match( /^[a-zA-Z0-9_-]+$/ )\<close> read as a condition: the whole string is one or
  more characters of the class.
\<close>

definition isCouponValid :: "string \<Rightarrow> bool" where
  "isCouponValid coupon = (coupon \<noteq> [] \<and> list_all is_coupon_char coupon)"

text \<open>
  \<open>handleFormSubmit\<close>, as the calls it makes on its arguments, in order; \<open>couponAdded\<close>
  tells whether that argument is truthy.
\<close>

definition handleFormSubmit :: "string \<Rightarrow> bool \<Rightarrow> coupon_effect list" where
  "handleFormSubmit couponFieldValue couponAdded =
     PreventDefault #
     (if isCouponValid couponFieldValue
      then [SetIsCouponApplied True,
            OnEventCoupon \<lparr>action_type = ''a8c_checkout_add_coupon'',
                           payload = CouponCode couponFieldValue\<rparr>,
            SubmitCoupon couponFieldValue]
           @ (if couponAdded then [CouponAdded] else [])
      else [OnEventCoupon \<lparr>action_type = ''a8c_checkout_add_coupon_error'',
                           payload = ErrorType ''Invalid code''\<rparr>,
            SetHasCouponError True])"

text \<open>
  The identifiers that are bound where the \<open>onSubmit\<close> handler of \<open>Coupon\<close> is written:
  the module's imports and declarations, the destructured props, the locals of \<open>Coupon\<close>
  and the handler's parameter.
\<close>

definition Coupon_bindings :: "string list" where
  "Coupon_bindings =
     [''React'', ''useState'', ''styled'', ''keyframes'', ''PropTypes'', ''useTranslate'',
      ''useEvents'', ''joinClasses'', ''Field'', ''Button'',
      ''Coupon'', ''animateIn'', ''CouponWrapper'', ''ApplyButton'',
      ''handleFieldInput'', ''handleFormSubmit'', ''isCouponValid'',
      ''id'', ''className'', ''disabled'', ''submitCoupon'', ''couponStatus'',
      ''translate'', ''onEvent'', ''isApplyButtonActive'', ''setIsApplyButtonActive'',
      ''couponFieldValue'', ''setCouponFieldValue'', ''hasCouponError'', ''isPending'',
      ''errorMessage'', ''event'']"

text \<open>
  The \<open>onSubmit\<close> handler: the callee and the arguments of the call are evaluated from
  left to right, and an identifier without a binding raises a ReferenceError before
  \<open>handleFormSubmit\<close> is entered. The argument \<open>couponAdded\<close> is the truthiness that
  identifier would have, were it bound.
\<close>

definition Coupon_onSubmit :: "string \<Rightarrow> bool \<Rightarrow> error + coupon_effect list" where
  "Coupon_onSubmit couponFieldValue couponAdded =
     (case find (\<lambda>x. x \<notin> set Coupon_bindings)
             [''handleFormSubmit'', ''event'', ''couponFieldValue'', ''setHasCouponError'',
              ''couponAdded'', ''setIsCouponApplied'', ''onEvent'', ''submitCoupon''] of
        Some x \<Rightarrow> Inl (ReferenceError x)
      | None \<Rightarrow> Inr (handleFormSubmit couponFieldValue couponAdded))"

section \<open>A sample checkout\<close>

text \<open>
  Three steps: A numbered, with a completion check that answers with a promise, B without
  a number, C numbered.
\<close>

definition step_A :: step where
  "step_A = \<lparr>step_id = ''A'', hasStepNumber = True,
              isCompleteCallback = Some (\<lambda>activePaymentMethod. Promise)\<rparr>"

definition step_B :: step where
  "step_B = \<lparr>step_id = ''B'', hasStepNumber = False, isCompleteCallback = None\<rparr>"

definition step_C :: step where
  "step_C = \<lparr>step_id = ''C'', hasStepNumber = True, isCompleteCallback = None\<rparr>"

definition sample_steps :: "step list" where
  "sample_steps = [step_A, step_B, step_C]"

definition annotated_A :: annotated_step where
  "annotated_A = \<lparr>step_id = ''A'', hasStepNumber = True,
                   isCompleteCallback = Some (\<lambda>activePaymentMethod. Promise),
                   stepNumber = Num 1, stepIndex = 0\<rparr>"

definition annotated_B :: annotated_step where
  "annotated_B = \<lparr>step_id = ''B'', hasStepNumber = False, isCompleteCallback = None,
                   stepNumber = Null, stepIndex = 1\<rparr>"

definition annotated_C :: annotated_step where
  "annotated_C = \<lparr>step_id = ''C'', hasStepNumber = True, isCompleteCallback = None,
                   stepNumber = Num 2, stepIndex = 2\<rparr>"

definition sample_window :: window where
  "sample_window =
     \<lparr>location_href = Some ''https://example.com/checkout'',
      history_pushState = True,
      history_entries = [''https://example.com/checkout'']\<rparr>"

text \<open>A host without \<open>history.pushState\<close>, opened at \<open>#step3\<close>.\<close>

definition legacy_window :: window where
  "legacy_window =
     \<lparr>location_href = Some ''https://example.com/checkout#step3'',
      history_pushState = False,
      history_entries = [''https://example.com/checkout#step3'']\<rparr>"

definition sample_checkout :: checkout where
  "sample_checkout =
     \<lparr>store = initial_state, win = sample_window, formStatus = Ready,
      stepCompleteStatus = Map.empty, pending = [], effects = []\<rparr>"

section \<open>Step annotation\<close>

lemma step_extend_fields [simp]:
  "step_id (step.extend s m) = step_id s"
  "hasStepNumber (step.extend s m) = hasStepNumber s"
  "isCompleteCallback (step.extend s m) = isCompleteCallback s"
  "stepNumber (step.extend s (annotated_step.fields a b)) = a"
  "stepIndex (step.extend s (annotated_step.fields a b)) = b"
  "step.truncate (step.extend s m) = s"
  by (simp_all add: step.defs annotated_step.defs)

lemma length_annotate_from: "length (annotate_from i c steps) = length steps"
  by (induction steps arbitrary: i c) (simp_all add: Let_def)

lemma annotate_from_nth:
  "k < length steps \<Longrightarrow>
   annotate_from i c steps ! k =
     step.extend (steps ! k)
       (annotated_step.fields
          (if hasStepNumber (steps ! k)
           then Num (c + int (length (filter hasStepNumber (take (Suc k) steps))))
           else Null)
          (i + k))"
proof (induction steps arbitrary: i c k)
  case Nil
  then show ?case by simp
next
  case (Cons s rest)
  show ?case
  proof (cases k)
    case 0
    then show ?thesis by (simp add: Let_def)
  next
    case (Suc j)
    with Cons.prems have "j < length rest" by simp
    from Cons.IH [OF this] Suc show ?thesis by (simp add: Let_def ac_simps)
  qed
qed

lemma annotate_from_numbers:
  "map stepNumber (filter hasStepNumber (annotate_from i c steps)) =
   map (\<lambda>j. Num (c + int j)) [1..<Suc (length (filter hasStepNumber steps))]"
proof (induction steps arbitrary: i c)
  case Nil
  then show ?case by simp
next
  case (Cons s rest)
  show ?case
  proof (cases "hasStepNumber s")
    case True
    have "map (\<lambda>j. Num (c + int j)) [1..<Suc (Suc (length (filter hasStepNumber rest)))]
        = Num (c + 1) # map (\<lambda>j. Num (c + 1 + int j)) [1..<Suc (length (filter hasStepNumber rest))]"
      by (simp add: upt_conv_Cons map_Suc_upt [symmetric] ac_simps del: upt_Suc)
    with True Cons.IH [of "Suc i" "c + 1"] show ?thesis by (simp add: Let_def del: upt_Suc)
  next
    case False
    with Cons.IH [of "Suc i" c] show ?thesis by (simp add: Let_def del: upt_Suc)
  qed
qed

text \<open>
  What the annotator leaves in every step: the position as \<open>stepIndex\<close>, a positive number
  exactly on the numbered steps, \<open>null\<close> on the others.
\<close>

lemma annotate_from_index:
  "k < length steps \<Longrightarrow> stepIndex (annotate_from i c steps ! k) = i + k"
  by (simp add: annotate_from_nth)

lemma annotate_from_member:
  assumes "s \<in> set (annotate_from i c steps)"
  shows "if hasStepNumber s then (\<exists>k > c. stepNumber s = Num k) else stepNumber s = Null"
proof -
  from assms obtain k where k: "k < length steps" and s: "s = annotate_from i c steps ! k"
    by (auto simp: in_set_conv_nth length_annotate_from)
  show ?thesis
  proof (cases "hasStepNumber (steps ! k)")
    case True
    then have "steps ! k \<in> set (filter hasStepNumber (take (Suc k) steps))"
      using k by (auto simp: in_set_conv_nth intro!: exI [of _ k])
    then have "0 < length (filter hasStepNumber (take (Suc k) steps))"
      by (auto simp: filter_empty_conv)
    with True k s show ?thesis by (simp add: annotate_from_nth)
  next
    case False
    with k s show ?thesis by (simp add: annotate_from_nth)
  qed
qed

lemma getAnnotatedSteps_Inr:
  "getAnnotatedSteps steps = Inr annotated \<Longrightarrow> annotated = annotate_from 0 0 steps"
  by (simp add: getAnnotatedSteps_def Let_def split: if_splits)

lemma sample_annotated:
  "getAnnotatedSteps sample_steps = Inr [annotated_A, annotated_B, annotated_C]"
  by (simp add: getAnnotatedSteps_def sample_steps_def step_A_def step_B_def step_C_def
      annotated_A_def annotated_B_def annotated_C_def step.defs annotated_step.defs Let_def)

text \<open>
  C2. For a non-empty step list, \<open>getAnnotatedSteps\<close> returns a list of the same length
  that keeps every step's own fields in place; the step at position \<open>i\<close> gets \<open>stepIndex\<close>
  \<open>i\<close>; a numbered step gets as \<open>stepNumber\<close> its 1-based rank among the numbered steps
  up to it and a step without a number gets \<open>null\<close>; read in list order, the numbers of the
  \<open>m\<close> numbered steps are 1, 2, ..., \<open>m\<close>.
\<close>

theorem getAnnotatedSteps_numbering:
  assumes "steps \<noteq> []"
  shows "\<exists>annotated.
           getAnnotatedSteps steps = Inr annotated
         \<and> length annotated = length steps
         \<and> (\<forall>i < length steps.
               step.truncate (annotated ! i) = steps ! i
             \<and> stepIndex (annotated ! i) = i
             \<and> stepNumber (annotated ! i) =
                 (if hasStepNumber (steps ! i)
                  then Num (int (length (filter hasStepNumber (take (Suc i) steps))))
                  else Null))
         \<and> map stepNumber (filter hasStepNumber annotated) =
             map (\<lambda>j. Num (int j)) [1..<Suc (length (filter hasStepNumber steps))]"
proof -
  let ?as = "annotate_from 0 0 steps"
  from assms have "getAnnotatedSteps steps = Inr ?as"
    by (cases steps) (simp_all add: getAnnotatedSteps_def Let_def)
  moreover have "length ?as = length steps"
    by (rule length_annotate_from)
  moreover have "\<forall>i < length steps.
               step.truncate (?as ! i) = steps ! i
             \<and> stepIndex (?as ! i) = i
             \<and> stepNumber (?as ! i) =
                 (if hasStepNumber (steps ! i)
                  then Num (int (length (filter hasStepNumber (take (Suc i) steps))))
                  else Null)"
    by (simp add: annotate_from_nth)
  moreover have "map stepNumber (filter hasStepNumber ?as) =
             map (\<lambda>j. Num (int j)) [1..<Suc (length (filter hasStepNumber steps))]"
    using annotate_from_numbers [of 0 0 steps] by simp
  ultimately show ?thesis by blast
qed

theorem getAnnotatedSteps_numbering_witness:
  "sample_steps \<noteq> []
   \<and> (\<exists>annotated.
           getAnnotatedSteps sample_steps = Inr annotated
         \<and> length annotated = length sample_steps
         \<and> (\<forall>i < length sample_steps.
               step.truncate (annotated ! i) = sample_steps ! i
             \<and> stepIndex (annotated ! i) = i
             \<and> stepNumber (annotated ! i) =
                 (if hasStepNumber (sample_steps ! i)
                  then Num (int (length (filter hasStepNumber (take (Suc i) sample_steps))))
                  else Null))
         \<and> map stepNumber (filter hasStepNumber annotated) =
             map (\<lambda>j. Num (int j)) [1..<Suc (length (filter hasStepNumber sample_steps))])"
proof -
  have h: "sample_steps \<noteq> []" by (simp add: sample_steps_def)
  show ?thesis by (rule conjI [OF h getAnnotatedSteps_numbering [OF h]])
qed

section \<open>The check of the previous steps\<close>

lemma foldl_seed_False:
  "foldl (\<lambda>allComplete step.
            if P step then (if allComplete = False then False else Q step) else allComplete)
         False steps = False"
  by (induction steps) simp_all

text \<open>
  With the seed \<open>false\<close> the accumulator never leaves \<open>false\<close>: the branch that reads the
  completion map is out of reach, whatever the steps, the target and the map.
\<close>

lemma areAllPreviousStepsComplete_always_False:
  "areAllPreviousStepsComplete steps n completeStatus = False"
  unfolding areAllPreviousStepsComplete_def by (rule foldl_seed_False)

text \<open>
  C1. The claim wants \<open>areAllPreviousStepsComplete\<close> to return true for the target 1, where
  no numbered step comes before, and for the target 2 once step A is recorded complete. On
  the sample steps the code returns false in both cases.
\<close>

theorem areAllPreviousStepsComplete_sample_False:
  "areAllPreviousStepsComplete [annotated_A, annotated_B, annotated_C] (Num 1) Map.empty = False
   \<and> areAllPreviousStepsComplete [annotated_A, annotated_B, annotated_C] (Num 2)
       [''A'' \<mapsto> True] = False"
  by (simp add: areAllPreviousStepsComplete_def annotated_A_def annotated_B_def
      annotated_C_def js_lt_def)

section \<open>Decimal digits and \<open>parseInt\<close>\<close>

lemma digit_char_is_digit: "d < 10 \<Longrightarrow> is_digit (digit_char d)"
  by (simp add: is_digit_def digit_char_def)

lemma digit_char_value: "d < 10 \<Longrightarrow> digit_value (digit_char d) = d"
  by (simp add: digit_value_def digit_char_def)

lemma is_digit_not_special:
  "is_digit c \<Longrightarrow>
   \<not> is_whitespace c \<and> c \<noteq> CHR ''-'' \<and> c \<noteq> CHR ''+'' \<and> c \<noteq> CHR ''#''"
  by (auto simp: is_digit_def is_whitespace_def)

lemma digits_of_all_digits: "\<forall>c \<in> set (digits_of n). is_digit c"
proof (induction n rule: digits_of.induct)
  case (1 n)
  then show ?case
    by (subst digits_of.simps) (auto simp: digit_char_is_digit)
qed

lemma digits_of_nonempty: "digits_of n \<noteq> []"
  by (subst digits_of.simps) simp

lemma digits_value_snoc: "digits_value (ds @ [c]) = 10 * digits_value ds + digit_value c"
  by (simp add: digits_value_def)

lemma digits_value_digits_of: "digits_value (digits_of n) = n"
proof (induction n rule: digits_of.induct)
  case (1 n)
  show ?case
  proof (cases "n < 10")
    case True
    then show ?thesis
      by (subst digits_of.simps) (simp add: digits_value_def digit_char_value)
  next
    case False
    with 1 have "digits_value (digits_of (n div 10)) = n div 10" by simp
    with False show ?thesis
      by (subst digits_of.simps) (simp add: digits_value_snoc digit_char_value)
  qed
qed

lemma parseInt10_digits_of:
  assumes "int n \<le> MAX_SAFE_INTEGER"
  shows "parseInt10 (digits_of n) = Num (int n)"
proof -
  obtain c r where cr: "digits_of n = c # r"
    using digits_of_nonempty [of n] by (cases "digits_of n") auto
  have all: "\<forall>x \<in> set (digits_of n). is_digit x" by (rule digits_of_all_digits)
  with cr have "is_digit c" by simp
  then have c: "\<not> is_whitespace c" "c \<noteq> CHR ''-''" "c \<noteq> CHR ''+''"
    using is_digit_not_special by blast+
  have tw: "takeWhile is_digit (digits_of n) = digits_of n"
    using all by (simp add: takeWhile_eq_all_conv)
  have safe: "int (digits_value (c # r)) \<le> MAX_SAFE_INTEGER"
    using assms by (simp add: cr [symmetric] digits_value_digits_of)
  have "parseInt10 (c # r) = Num (int (digits_value (c # r)))"
    using c tw cr safe by (simp add: parseInt10_def)
  then show ?thesis by (simp add: cr [symmetric] digits_value_digits_of)
qed

lemma digits_of_2: "digits_of 2 = ''2''"
proof -
  have "digit_char 2 = CHR ''2''" by code_simp
  then show ?thesis by (subst digits_of.simps) simp
qed

lemma digits_of_no_hash: "CHR ''#'' \<notin> set (digits_of n)"
  using digits_of_all_digits [of n] is_digit_not_special by blast

section \<open>The fragment of a URL\<close>

lemma split_pieces_no_hash:
  "CHR ''#'' \<notin> set s \<Longrightarrow> split_pieces (CHR ''#'' # sep) piece s = [piece @ s]"
proof (induction s arbitrary: piece)
  case Nil
  then show ?case by simp
next
  case (Cons c cs)
  then show ?case by simp
qed

lemma js_split_step:
  assumes "CHR ''#'' \<notin> set ds"
  shows "js_split (''#step'' @ ds) ''#step'' = [[], ds]"
  using split_pieces_no_hash [OF assms, of "''step''" "[]"]
  by (simp add: js_split_def)

lemma location_hash_append:
  assumes "CHR ''#'' \<notin> set pre" and "f \<noteq> []"
  shows "location_hash (pre @ CHR ''#'' # f) = CHR ''#'' # f"
proof -
  have "dropWhile (\<lambda>c. c \<noteq> CHR ''#'') (pre @ CHR ''#'' # f) = CHR ''#'' # f"
    using assms(1) by (auto simp: dropWhile_append3)
  with assms(2) show ?thesis by (cases f) (simp_all add: location_hash_def)
qed

lemma location_hash_none:
  assumes "CHR ''#'' \<notin> set pre"
  shows "location_hash pre = []"
proof -
  have F: "dropWhile (\<lambda>c. c \<noteq> CHR ''#'') pre = []" using assms by auto
  show ?thesis unfolding location_hash_def F by simp
qed

text \<open>A URL has no \<open>#\<close>, or ends in its first \<open>#\<close>, or has a fragment after it.\<close>

lemma location_hash_cases:
  obtains (no_fragment) "CHR ''#'' \<notin> set href" "location_hash href = []"
  | (empty_fragment) pre where "href = pre @ ''#''" "CHR ''#'' \<notin> set pre"
      "location_hash href = []"
  | (fragment) pre f where "href = pre @ CHR ''#'' # f" "CHR ''#'' \<notin> set pre" "f \<noteq> []"
      "location_hash href = CHR ''#'' # f"
proof (cases "dropWhile (\<lambda>c. c \<noteq> CHR ''#'') href")
  case Nil
  then have "CHR ''#'' \<notin> set href" by (auto simp: dropWhile_eq_Nil_conv)
  then show ?thesis using no_fragment location_hash_none by blast
next
  case (Cons c f)
  have "\<not> (hd (dropWhile (\<lambda>c. c \<noteq> CHR ''#'') href) \<noteq> CHR ''#'')"
    by (rule hd_dropWhile) (simp add: Cons)
  then have c: "c = CHR ''#''" by (simp add: Cons)
  define pre where "pre = takeWhile (\<lambda>c. c \<noteq> CHR ''#'') href"
  have pre: "CHR ''#'' \<notin> set pre" unfolding pre_def by (auto dest: set_takeWhileD)
  have "href = pre @ dropWhile (\<lambda>c. c \<noteq> CHR ''#'') href"
    unfolding pre_def by simp
  then have href: "href = pre @ CHR ''#'' # f"
    by (simp only: Cons c)
  show ?thesis
  proof (cases "f = []")
    case True
    have "location_hash href = []"
      unfolding location_hash_def Cons True by simp
    with href pre True show ?thesis using empty_fragment [of pre] by simp
  next
    case False
    with href pre show ?thesis using fragment location_hash_append by blast
  qed
qed

lemma js_replace_first:
  assumes "CHR ''#'' \<notin> set pre"
  shows "js_replace (pre @ CHR ''#'' # f) (CHR ''#'' # f) rep = pre @ rep"
  using assms
proof (induction pre)
  case Nil
  show ?case by simp
next
  case (Cons c cs)
  then have ne: "c \<noteq> CHR ''#''"
    and IH: "js_replace (cs @ CHR ''#'' # f) (CHR ''#'' # f) rep = cs @ rep"
    by auto
  show ?case using ne IH by simp
qed

lemma newHash_of_Num:
  "newHash_of (Num n) = (if 1 < n then ''#step'' @ js_toString (Num n) else [])"
  by (simp add: newHash_of_def js_gt_def js_lt_def)

lemma js_toString_safe:
  "0 \<le> n \<Longrightarrow> n \<le> MAX_SAFE_INTEGER \<Longrightarrow> js_toString (Num n) = digits_of (nat n)"
  by simp

lemma newHash_of_safe:
  assumes "n \<le> MAX_SAFE_INTEGER"
  shows "newHash_of (Num n) = (if 1 < n then ''#step'' @ digits_of (nat n) else [])"
  using assms by (simp add: newHash_of_Num)

lemma newHash_of_2: "newHash_of (Num 2) = ''#step2''"
  by (simp add: newHash_of_Num MAX_SAFE_INTEGER_def digits_of_2)

lemma newHash_of_shape: "newHash_of n = [] \<or> (\<exists>f. f \<noteq> [] \<and> newHash_of n = CHR ''#'' # f)"
  by (simp add: newHash_of_def)

text \<open>
  After a write, the fragment of the URL is the computed one, unless the URL came with an
  empty fragment.
\<close>

lemma saveStepNumberToUrl_hash:
  assumes push: "history_pushState w"
    and loc: "location_href w = Some href"
    and nonempty: "location_hash href = [] \<longrightarrow> CHR ''#'' \<notin> set href"
  shows "\<exists>w' href'. saveStepNumberToUrl n w = Inr w' \<and> location_href w' = Some href'
           \<and> location_hash href' = newHash_of n"
proof (cases "location_hash href = newHash_of n")
  case True
  with push loc have "saveStepNumberToUrl n w = Inr w"
    by (simp add: saveStepNumberToUrl_def)
  with loc True show ?thesis by blast
next
  case differs: False
  have pushed: "\<And>url. location_href (pushState url w) = Some url"
    by (simp add: pushState_def)
  show ?thesis
  proof (cases href rule: location_hash_cases)
    case no_fragment
    with differs obtain f where f: "f \<noteq> []" "newHash_of n = CHR ''#'' # f"
      using newHash_of_shape [of n] by auto
    from no_fragment differs push loc
    have "saveStepNumberToUrl n w = Inr (pushState (href @ newHash_of n) w)"
      by (simp add: saveStepNumberToUrl_def)
    moreover have "location_hash (href @ newHash_of n) = newHash_of n"
      using no_fragment(1) f by (simp add: location_hash_append)
    ultimately show ?thesis using pushed by blast
  next
    case (empty_fragment pre)
    with nonempty show ?thesis by simp
  next
    case (fragment pre f)
    from fragment differs push loc
    have "saveStepNumberToUrl n w =
            Inr (pushState (js_replace (pre @ CHR ''#'' # f) (CHR ''#'' # f) (newHash_of n)) w)"
      by (simp add: saveStepNumberToUrl_def)
    then have saved: "saveStepNumberToUrl n w = Inr (pushState (pre @ newHash_of n) w)"
      using fragment(2) by (simp add: js_replace_first)
    have "location_hash (pre @ newHash_of n) = newHash_of n"
    proof (cases "newHash_of n = []")
      case True
      with fragment(2) show ?thesis by (simp add: location_hash_none)
    next
      case False
      then obtain g where "g \<noteq> []" "newHash_of n = CHR ''#'' # g"
        using newHash_of_shape [of n] by auto
      with fragment(2) show ?thesis by (simp add: location_hash_append)
    qed
    with saved pushed show ?thesis by blast
  qed
qed

lemma getStepNumberFromUrl_step:
  assumes "location_href w = Some href" and "location_hash href = ''#step'' @ digits_of k"
    and "int k \<le> MAX_SAFE_INTEGER"
  shows "getStepNumberFromUrl w = Num (int k)"
proof -
  have "js_split (''#step'' @ digits_of k) ''#step'' = [[], digits_of k]"
    by (rule js_split_step) (rule digits_of_no_hash)
  with assms(1,2) show ?thesis
    by (simp add: getStepNumberFromUrl_def js_startsWith_def parseInt10_digits_of [OF assms(3)])
qed

lemma getStepNumberFromUrl_no_fragment:
  assumes "location_href w = Some href" and "location_hash href = []"
  shows "getStepNumberFromUrl w = Num 1"
  using assms by (simp add: getStepNumberFromUrl_def js_startsWith_def)

text \<open>
  C6, as the code has it. In a window with \<open>history.pushState\<close> whose URL does not end in
  an empty fragment, \<open>saveStepNumberToUrl(n)\<close> followed by \<open>getStepNumberFromUrl()\<close> gives
  \<open>n\<close> back for every integer \<open>n\<close> from 1 to \<open>Number.MAX_SAFE_INTEGER\<close>: for \<open>n > 1\<close> the
  fragment becomes \<open>#step\<close> followed by the decimal digits of \<open>n\<close>, for \<open>n = 1\<close> the URL
  is left without a fragment.
\<close>

theorem saveStepNumberToUrl_roundtrip:
  assumes "1 \<le> n"
    and "n \<le> MAX_SAFE_INTEGER"
    and "history_pushState w"
    and "location_href w = Some href"
    and "location_hash href = [] \<longrightarrow> CHR ''#'' \<notin> set href"
  shows "\<exists>w' href'.
           saveStepNumberToUrl (Num n) w = Inr w'
         \<and> location_href w' = Some href'
         \<and> location_hash href' = (if 1 < n then ''#step'' @ digits_of (nat n) else [])
         \<and> getStepNumberFromUrl w' = Num n"
proof -
  from saveStepNumberToUrl_hash [OF assms(3-5), of "Num n"]
  obtain w' href' where saved: "saveStepNumberToUrl (Num n) w = Inr w'"
    and loc': "location_href w' = Some href'"
    and hash': "location_hash href' = (if 1 < n then ''#step'' @ digits_of (nat n) else [])"
    by (auto simp: newHash_of_safe [OF assms(2)])
  have "getStepNumberFromUrl w' = Num n"
  proof (cases "1 < n")
    case True
    with hash' have hash: "location_hash href' = ''#step'' @ digits_of (nat n)" by simp
    from assms(1,2) have "int (nat n) \<le> MAX_SAFE_INTEGER" by simp
    from getStepNumberFromUrl_step [OF loc' hash this] True show ?thesis by simp
  next
    case False
    with assms(1) have "n = 1" by simp
    moreover from False hash' have "location_hash href' = []" by simp
    ultimately show ?thesis using getStepNumberFromUrl_no_fragment [OF loc'] by simp
  qed
  with saved loc' hash' show ?thesis by blast
qed

theorem saveStepNumberToUrl_roundtrip_witness:
  "(1::int) \<le> 2
   \<and> 2 \<le> MAX_SAFE_INTEGER
   \<and> history_pushState sample_window
   \<and> location_href sample_window = Some ''https://example.com/checkout''
   \<and> CHR ''#'' \<notin> set ''https://example.com/checkout''
   \<and> (\<exists>w' href'.
           saveStepNumberToUrl (Num 2) sample_window = Inr w'
         \<and> location_href w' = Some href'
         \<and> location_hash href' = (if (1::int) < 2 then ''#step'' @ digits_of (nat 2) else [])
         \<and> getStepNumberFromUrl w' = Num 2)"
proof -
  have h1: "(1::int) \<le> 2" by simp
  have safe: "2 \<le> MAX_SAFE_INTEGER" by (simp add: MAX_SAFE_INTEGER_def)
  have h2: "history_pushState sample_window" by (simp add: sample_window_def)
  have h3: "location_href sample_window = Some ''https://example.com/checkout''"
    by (simp add: sample_window_def)
  have no_hash: "CHR ''#'' \<notin> set ''https://example.com/checkout''" by simp
  then have h4: "location_hash ''https://example.com/checkout'' = []
            \<longrightarrow> CHR ''#'' \<notin> set ''https://example.com/checkout''"
    by blast
  show ?thesis
    by (intro conjI h1 safe h2 h3 no_hash
          saveStepNumberToUrl_roundtrip [OF h1 safe h2 h3 h4])
qed

text \<open>
  C6, as the claim states it, fails where \<open>history.pushState\<close> is missing: the write is
  skipped, and the read gives the step of the URL the page was opened with.
\<close>

theorem saveStepNumberToUrl_roundtrip_counterexample:
  "saveStepNumberToUrl (Num 2) legacy_window = Inr legacy_window
   \<and> getStepNumberFromUrl legacy_window = Num 3
   \<and> Num 3 \<noteq> Num 2"
  by (simp add: saveStepNumberToUrl_def legacy_window_def getStepNumberFromUrl_def
      location_hash_def js_startsWith_def js_split_def parseInt10_def is_whitespace_def
      is_digit_def digits_value_def digit_value_def MAX_SAFE_INTEGER_def)

text \<open>
  C8, as the code has it. A call of \<open>saveStepNumberToUrl\<close> that returns changes the window
  only when \<open>history.pushState\<close> is there and the computed fragment differs from the
  current one, and then by one \<open>pushState\<close>: the URL is replaced and one new entry, the
  new URL, is added at the end of the session history. Otherwise the window is unchanged.
\<close>

theorem saveStepNumberToUrl_history:
  assumes "saveStepNumberToUrl n w = Inr w'"
  shows "if history_pushState w
            \<and> (\<exists>href. location_href w = Some href \<and> location_hash href \<noteq> newHash_of n)
         then (\<exists>url. w' = w\<lparr>location_href := Some url,
                               history_entries := history_entries w @ [url]\<rparr>
                 \<and> length (history_entries w') = Suc (length (history_entries w)))
         else w' = w"
  using assms
  by (auto simp: saveStepNumberToUrl_def pushState_def Let_def
           split: if_splits option.splits)

theorem saveStepNumberToUrl_history_witness:
  "saveStepNumberToUrl (Num 2) sample_window = Inr (pushState ''https://example.com/checkout#step2'' sample_window)
   \<and> (if history_pushState sample_window
            \<and> (\<exists>href. location_href sample_window = Some href
                       \<and> location_hash href \<noteq> newHash_of (Num 2))
         then (\<exists>url. pushState ''https://example.com/checkout#step2'' sample_window
                       = sample_window\<lparr>location_href := Some url,
                               history_entries := history_entries sample_window @ [url]\<rparr>
                 \<and> length (history_entries (pushState ''https://example.com/checkout#step2'' sample_window))
                     = Suc (length (history_entries sample_window)))
         else pushState ''https://example.com/checkout#step2'' sample_window = sample_window)"
proof -
  have h: "saveStepNumberToUrl (Num 2) sample_window
           = Inr (pushState ''https://example.com/checkout#step2'' sample_window)"
    by (simp add: saveStepNumberToUrl_def sample_window_def newHash_of_2
        location_hash_def)
  show ?thesis by (rule conjI [OF h saveStepNumberToUrl_history [OF h]])
qed

text \<open>
  C8, as the claim states it, fails: the write goes through \<open>history.pushState\<close>, and the
  session history of the sample window grows from one entry to two.
\<close>

theorem saveStepNumberToUrl_history_counterexample:
  "saveStepNumberToUrl (Num 2) sample_window =
     Inr \<lparr>location_href = Some ''https://example.com/checkout#step2'',
          history_pushState = True,
          history_entries = [''https://example.com/checkout'',
                             ''https://example.com/checkout#step2'']\<rparr>
   \<and> history_entries sample_window = [''https://example.com/checkout'']"
  by (simp add: saveStepNumberToUrl_def sample_window_def newHash_of_2
      location_hash_def pushState_def Let_def)

text \<open>
  C10. Without \<open>history.pushState\<close>, \<open>saveStepNumberToUrl\<close> returns normally and leaves
  the window, its URL and its session history, as they were.
\<close>

theorem saveStepNumberToUrl_without_pushState:
  assumes "\<not> history_pushState w"
  shows "saveStepNumberToUrl n w = Inr w"
  using assms by (simp add: saveStepNumberToUrl_def)

theorem saveStepNumberToUrl_without_pushState_witness:
  "\<not> history_pushState legacy_window
   \<and> saveStepNumberToUrl (Num 2) legacy_window = Inr legacy_window"
proof -
  have h: "\<not> history_pushState legacy_window" by (simp add: legacy_window_def)
  show ?thesis by (rule conjI [OF h saveStepNumberToUrl_without_pushState [OF h]])
qed

text \<open>
  The URL that ends in an empty fragment is the one the round trip leaves out: the write
  appends the new fragment after the bare \<open>#\<close>, and the read no longer finds \<open>#step\<close>
  at the start.
\<close>

lemma saveStepNumberToUrl_empty_fragment:
  "saveStepNumberToUrl (Num 2)
     \<lparr>location_href = Some ''https://example.com/checkout#'', history_pushState = True,
      history_entries = []\<rparr>
   = Inr \<lparr>location_href = Some ''https://example.com/checkout##step2'',
          history_pushState = True,
          history_entries = [''https://example.com/checkout##step2'']\<rparr>
   \<and> getStepNumberFromUrl
       \<lparr>location_href = Some ''https://example.com/checkout##step2'',
        history_pushState = True,
        history_entries = [''https://example.com/checkout##step2'']\<rparr> = Num 1"
  by (simp add: saveStepNumberToUrl_def newHash_of_2 location_hash_def
      pushState_def Let_def getStepNumberFromUrl_def js_startsWith_def)

lemma saveStepNumberToUrl_raises_iff:
  "(\<exists>e. saveStepNumberToUrl n w = Inl e) \<longleftrightarrow> history_pushState w \<and> location_href w = None"
  by (auto simp: saveStepNumberToUrl_def Let_def split: option.splits)

section \<open>The step store\<close>


lemma pushed_urls_same: "pushed_urls w w = []"
  by (simp add: pushed_urls_def)

lemma pushed_urls_pushState: "pushed_urls w (pushState url w) = [url]"
  by (simp add: pushed_urls_def pushState_def)

lemma dispatch_changeStep_result:
  assumes "saveStepNumberToUrl target (win c) = Inr w'"
  shows "dispatch (changeStep target) c =
           Inr (c\<lparr>store := State target,
                  win := w',
                  effects := effects c @
                    OnEvent \<lparr>action_type = ''STEP_NUMBER_CHANGE_EVENT'', payload = target\<rparr>
                    # map PushState (pushed_urls (win c) w')
                    @ [Commit \<lparr>action_type = ''STEP_NUMBER_SET'', payload = target\<rparr>]\<rparr>)"
  using assms
  by (simp add: dispatch_def changeStep_def controls_def STEP_NUMBER_CHANGE_EVENT_def
      onEvent_def commit_def reducer_def Let_def)

lemma dispatch_changeStep_raises:
  assumes "saveStepNumberToUrl target (win c) = Inl e"
  shows "dispatch (changeStep target) c =
           Inl (e, c\<lparr>effects := effects c @
                    [OnEvent \<lparr>action_type = ''STEP_NUMBER_CHANGE_EVENT'',
                              payload = target\<rparr>]\<rparr>)"
  using assms
  by (simp add: dispatch_def changeStep_def controls_def STEP_NUMBER_CHANGE_EVENT_def
      onEvent_def Let_def)

text \<open>
  C3, as the code has it. One dispatch of \<open>changeStep(target)\<close> calls \<open>onEvent\<close> once, with
  the \<open>STEP_NUMBER_CHANGE_EVENT\<close> action carrying the target, then runs
  \<open>saveStepNumberToUrl\<close>, then hands \<open>STEP_NUMBER_SET\<close> to the reducer, and the store holds
  the target when dispatch returns. Between the event and the commit the URL is written,
  by one \<open>history.pushState\<close> that replaces the fragment and adds one entry to the
  session history, exactly when \<open>history.pushState\<close> is there and the computed fragment
  differs from the current one; otherwise nothing is written and the window stays as it
  is. Where \<open>history.pushState\<close> is there and \<open>window.location\<close> is not, the URL step throws
  after the event and nothing is committed.
\<close>

theorem changeStep_dispatch:
  "dispatch (changeStep target) c =
     (let notify = OnEvent \<lparr>action_type = ''STEP_NUMBER_CHANGE_EVENT'', payload = target\<rparr>;
          set_step = Commit \<lparr>action_type = ''STEP_NUMBER_SET'', payload = target\<rparr>
      in if \<not> history_pushState (win c)
         then Inr (c\<lparr>store := State target, effects := effects c @ [notify, set_step]\<rparr>)
         else case location_href (win c) of
                None \<Rightarrow>
                  Inl (TypeError ''window.location is undefined'',
                       c\<lparr>effects := effects c @ [notify]\<rparr>)
              | Some href \<Rightarrow>
                  if location_hash href = newHash_of target
                  then Inr (c\<lparr>store := State target,
                              effects := effects c @ [notify, set_step]\<rparr>)
                  else (let url = (if location_hash href \<noteq> []
                                   then js_replace href (location_hash href) (newHash_of target)
                                   else href @ newHash_of target)
                        in Inr (c\<lparr>store := State target,
                                  win := (win c)\<lparr>location_href := Some url,
                                                 history_entries :=
                                                   history_entries (win c) @ [url]\<rparr>,
                                  effects := effects c @ [notify, PushState url, set_step]\<rparr>)))"
proof (cases "history_pushState (win c)")
  case False
  then have "saveStepNumberToUrl target (win c) = Inr (win c)"
    by (simp add: saveStepNumberToUrl_def)
  from dispatch_changeStep_result [OF this] False show ?thesis
    by (simp add: pushed_urls_same Let_def)
next
  case push: True
  show ?thesis
  proof (cases "location_href (win c)")
    case None
    with push have "saveStepNumberToUrl target (win c)
                      = Inl (TypeError ''window.location is undefined'')"
      by (simp add: saveStepNumberToUrl_def)
    from dispatch_changeStep_raises [OF this] push None show ?thesis
      by (simp add: Let_def)
  next
    case (Some href)
    show ?thesis
    proof (cases "location_hash href = newHash_of target")
      case True
      with push Some have "saveStepNumberToUrl target (win c) = Inr (win c)"
        by (simp add: saveStepNumberToUrl_def)
      from dispatch_changeStep_result [OF this] push Some True show ?thesis
        by (simp add: pushed_urls_same Let_def)
    next
      case False
      define url where "url = (if location_hash href \<noteq> []
                                   then js_replace href (location_hash href) (newHash_of target)
                                   else href @ newHash_of target)"
      from push Some False have "saveStepNumberToUrl target (win c) = Inr (pushState url (win c))"
        by (simp add: saveStepNumberToUrl_def url_def)
      from dispatch_changeStep_result [OF this]
      have "dispatch (changeStep target) c =
              Inr (c\<lparr>store := State target,
                     win := pushState url (win c),
                     effects := effects c @
                       [OnEvent \<lparr>action_type = ''STEP_NUMBER_CHANGE_EVENT'', payload = target\<rparr>,
                        PushState url,
                        Commit \<lparr>action_type = ''STEP_NUMBER_SET'', payload = target\<rparr>]\<rparr>)"
        by (simp add: pushed_urls_pushState)
      with push Some False show ?thesis
        by (simp add: pushState_def Let_def url_def)
    qed
  qed
qed

theorem changeStep_dispatch_witness:
  "dispatch (changeStep (Num 2)) sample_checkout =
     Inr (sample_checkout
            \<lparr>store := State (Num 2),
             win := sample_window
                      \<lparr>location_href := Some ''https://example.com/checkout#step2'',
                       history_entries := [''https://example.com/checkout'',
                                           ''https://example.com/checkout#step2'']\<rparr>,
             effects :=
               [OnEvent \<lparr>action_type = ''STEP_NUMBER_CHANGE_EVENT'', payload = Num 2\<rparr>,
                PushState ''https://example.com/checkout#step2'',
                Commit \<lparr>action_type = ''STEP_NUMBER_SET'', payload = Num 2\<rparr>]\<rparr>)"
  using changeStep_dispatch [of "Num 2" sample_checkout]
  by (simp add: sample_checkout_def sample_window_def newHash_of_2 location_hash_def Let_def)

text \<open>
  C3, as the claim states it, fails on the dispatch that every mount makes: with no
  fragment in the URL, \<open>changeStep(1)\<close> computes the empty fragment, which is the current
  one, so the URL is not written; the event is followed by the commit at once, and the
  window and its one history entry stay as they are.
\<close>

theorem changeStep_dispatch_counterexample:
  "dispatch (changeStep (Num 1)) sample_checkout =
     Inr (sample_checkout
            \<lparr>store := State (Num 1),
             effects :=
               [OnEvent \<lparr>action_type = ''STEP_NUMBER_CHANGE_EVENT'', payload = Num 1\<rparr>,
                Commit \<lparr>action_type = ''STEP_NUMBER_SET'', payload = Num 1\<rparr>]\<rparr>)
   \<and> history_entries (win sample_checkout) = [''https://example.com/checkout'']"
proof -
  have "saveStepNumberToUrl (Num 1) (win sample_checkout) = Inr (win sample_checkout)"
    by (simp add: sample_checkout_def saveStepNumberToUrl_def sample_window_def
        newHash_of_Num location_hash_def)
  from dispatch_changeStep_result [OF this] show ?thesis
    by (simp add: pushed_urls_same sample_checkout_def sample_window_def)
qed

section \<open>The next numbered step\<close>

lemma find_enumerate_stepIndex:
  assumes "\<forall>k < length xs. stepIndex (xs ! k) = i + k"
  shows "map_option snd (find (\<lambda>(index, step). P index step) (enumerate i xs))
         = find (\<lambda>s. P (stepIndex s) s) xs"
  using assms
proof (induction xs arbitrary: i)
  case Nil
  show ?case by simp
next
  case (Cons x rest)
  from Cons.prems have x: "stepIndex x = i" by auto
  have "\<forall>k < length rest. stepIndex (rest ! k) = Suc i + k"
  proof (intro allI impI)
    fix k assume "k < length rest"
    then have "Suc k < length (x # rest)" by simp
    with Cons.prems have "stepIndex ((x # rest) ! Suc k) = i + Suc k" by blast
    then show "stepIndex (rest ! k) = Suc i + k" by simp
  qed
  from Cons.IH [OF this] x show ?case by simp
qed

text \<open>
  C5. On the annotated steps, the next step is the first step of the list whose
  \<open>stepIndex\<close> is greater than the active step's and whose \<open>hasStepNumber\<close> is true, and
  \<open>isThereAnotherNumberedStep\<close> holds exactly when the list has such a step.
\<close>

theorem nextStep_first_numbered:
  assumes "getAnnotatedSteps steps = Inr annotated"
  shows "nextStep annotated activeStep
           = find (\<lambda>s. stepIndex activeStep < stepIndex s \<and> hasStepNumber s) annotated
         \<and> (isThereAnotherNumberedStep (nextStep annotated activeStep)
              \<longleftrightarrow> (\<exists>s \<in> set annotated. stepIndex activeStep < stepIndex s \<and> hasStepNumber s))"
proof -
  from assms have a: "annotated = annotate_from 0 0 steps"
    by (rule getAnnotatedSteps_Inr)
  then have "\<forall>k < length annotated. stepIndex (annotated ! k) = 0 + k"
    by (simp add: length_annotate_from annotate_from_index)
  from find_enumerate_stepIndex
         [OF this, of "\<lambda>index step. stepIndex activeStep < index \<and> hasStepNumber step"]
  have first: "nextStep annotated activeStep
           = find (\<lambda>s. stepIndex activeStep < stepIndex s \<and> hasStepNumber s) annotated"
    by (simp add: nextStep_def)
  have "isThereAnotherNumberedStep (nextStep annotated activeStep)
          \<longleftrightarrow> (\<exists>s \<in> set annotated. stepIndex activeStep < stepIndex s \<and> hasStepNumber s)"
  proof (cases "find (\<lambda>s. stepIndex activeStep < stepIndex s \<and> hasStepNumber s) annotated")
    case None
    then have "\<not> (\<exists>s \<in> set annotated. stepIndex activeStep < stepIndex s \<and> hasStepNumber s)"
      by (simp add: find_None_iff)
    with None show ?thesis
      unfolding first by (simp add: isThereAnotherNumberedStep_def)
  next
    case (Some s)
    then have "s \<in> set annotated" "stepIndex activeStep < stepIndex s" "hasStepNumber s"
      by (auto simp: find_Some_iff)
    with Some show ?thesis
      unfolding first by (auto simp: isThereAnotherNumberedStep_def)
  qed
  with first show ?thesis by blast
qed

text \<open>
  The scenario of the claim: steps A (numbered), B (not numbered), C (numbered), with
  step 1 active; the next step is C, B is passed over.
\<close>

theorem nextStep_first_numbered_witness:
  "getAnnotatedSteps sample_steps = Inr [annotated_A, annotated_B, annotated_C]
   \<and> find_activeStep [annotated_A, annotated_B, annotated_C] (Num 1) = Inr annotated_A
   \<and> nextStep [annotated_A, annotated_B, annotated_C] annotated_A = Some annotated_C
   \<and> isThereAnotherNumberedStep (nextStep [annotated_A, annotated_B, annotated_C] annotated_A)"
proof -
  note t = nextStep_first_numbered [OF sample_annotated, of annotated_A]
  have active: "find_activeStep [annotated_A, annotated_B, annotated_C] (Num 1) = Inr annotated_A"
    by (simp add: find_activeStep_def annotated_A_def)
  have "find (\<lambda>s. stepIndex annotated_A < stepIndex s \<and> hasStepNumber s)
          [annotated_A, annotated_B, annotated_C] = Some annotated_C"
    by (simp add: annotated_A_def annotated_B_def annotated_C_def)
  with t have nxt: "nextStep [annotated_A, annotated_B, annotated_C] annotated_A = Some annotated_C"
    by simp
  have "\<exists>s \<in> set [annotated_A, annotated_B, annotated_C].
          stepIndex annotated_A < stepIndex s \<and> hasStepNumber s"
    by (simp add: annotated_A_def annotated_C_def)
  with t have "isThereAnotherNumberedStep
                 (nextStep [annotated_A, annotated_B, annotated_C] annotated_A)"
    by blast
  with sample_annotated active nxt show ?thesis by blast
qed

section \<open>The complete indicator\<close>

text \<open>
  C7, as the code has it. For a step of the annotated list, the complete indicator does
  not read the completion map: a numbered step is shown complete exactly when the active
  step's number is greater than its own, and a step without a number is always shown
  complete.
\<close>

theorem shouldShowStepCompleteIcon_rule:
  assumes "getAnnotatedSteps steps = Inr annotated" and "step \<in> set annotated"
  shows "shouldShowStepCompleteIcon activeStep
           (CheckoutStepContainer_props completeStatus activeStep ns step)
         = (if hasStepNumber step then js_gt (stepNumber activeStep) (stepNumber step)
            else True)"
proof -
  from getAnnotatedSteps_Inr [OF assms(1)] assms(2)
  have "step \<in> set (annotate_from 0 0 steps)"
    by simp
  from annotate_from_member [OF this] show ?thesis
    by (auto simp: shouldShowStepCompleteIcon_def CheckoutStepContainer_props_def
             split: if_splits)
qed

theorem shouldShowStepCompleteIcon_rule_witness:
  "getAnnotatedSteps sample_steps = Inr [annotated_A, annotated_B, annotated_C]
   \<and> annotated_A \<in> set [annotated_A, annotated_B, annotated_C]
   \<and> shouldShowStepCompleteIcon annotated_C
        (CheckoutStepContainer_props Map.empty annotated_C None annotated_A)
      = (if hasStepNumber annotated_A
         then js_gt (stepNumber annotated_C) (stepNumber annotated_A) else True)"
proof -
  have m: "annotated_A \<in> set [annotated_A, annotated_B, annotated_C]" by simp
  show ?thesis
    by (intro conjI sample_annotated m
          shouldShowStepCompleteIcon_rule [OF sample_annotated m])
qed

text \<open>
  C7, as the claim states it, fails on step B of the sample, which has no number: nothing
  is recorded for B, so its tracked completion flag is false, and B is shown complete.
\<close>

theorem shouldShowStepCompleteIcon_counterexample:
  "\<not> hasStepNumber annotated_B
   \<and> isComplete (CheckoutStepContainer_props Map.empty annotated_A (Some annotated_C) annotated_B)
       = False
   \<and> shouldShowStepCompleteIcon annotated_A
       (CheckoutStepContainer_props Map.empty annotated_A (Some annotated_C) annotated_B)
       = True"
  by (simp add: shouldShowStepCompleteIcon_def CheckoutStepContainer_props_def
      annotated_A_def annotated_B_def)

section \<open>The completion gate\<close>






section \<open>The coupon form\<close>

text \<open>
  Once entered, \<open>handleFormSubmit\<close> calls \<open>onEvent\<close> exactly once, with the
  \<open>a8c_checkout_add_coupon\<close> event carrying the value when the value is valid and with the
  \<open>a8c_checkout_add_coupon_error\<close> event otherwise, and calls \<open>submitCoupon\<close>, with the
  value, exactly when the value is valid.
\<close>

lemma handleFormSubmit_one_event:
  "filter (\<lambda>e. \<exists>a. e = OnEventCoupon a) (handleFormSubmit v couponAdded) =
     [OnEventCoupon
        (if isCouponValid v
         then \<lparr>action_type = ''a8c_checkout_add_coupon'', payload = CouponCode v\<rparr>
         else \<lparr>action_type = ''a8c_checkout_add_coupon_error'',
               payload = ErrorType ''Invalid code''\<rparr>)]
   \<and> filter (\<lambda>e. \<exists>x. e = SubmitCoupon x) (handleFormSubmit v couponAdded) =
     (if isCouponValid v then [SubmitCoupon v] else [])"
  by (simp add: handleFormSubmit_def)

text \<open>
  The handler of \<open>Coupon\<close> never enters it: \<open>setHasCouponError\<close>, the third argument of the
  call, has no binding in the module.
\<close>

lemma Coupon_onSubmit_always_raises:
  "Coupon_onSubmit v couponAdded = Inl (ReferenceError ''setHasCouponError'')"
  by (simp add: Coupon_onSubmit_def Coupon_bindings_def)

text \<open>
  C9. The claim wants one event on every submission of the coupon form. Submitting the
  form, with the empty initial value or with the valid code \<open>SAVE10\<close>, raises a
  ReferenceError in the \<open>onSubmit\<close> handler: no event is emitted and \<open>submitCoupon\<close> is not
  called.
\<close>

theorem Coupon_onSubmit_raises:
  "Coupon_onSubmit [] False = Inl (ReferenceError ''setHasCouponError'')
   \<and> Coupon_onSubmit ''SAVE10'' False = Inl (ReferenceError ''setHasCouponError'')"
  by (simp add: Coupon_onSubmit_def Coupon_bindings_def)

end
